theory Spec2Isabelle
  imports Main "HOL-Library.Word"
begin

section \<open>png\_to\_c.py: a byte array as a C header\<close>

text \<open>
  The script reads a file as bytes and writes a C header: include guards, an
  \<^verbatim>\<open>unsigned char\<close> array holding the bytes as hexadecimal literals, sixteen to a row,
  and an \<^verbatim>\<open>unsigned int\<close> with the size of the array. The definitions below follow
  \<^verbatim>\<open>src/png_to_c.py\<close> statement by statement.
\<close>

subsection \<open>Data\<close>

text \<open>
  \<^verbatim>\<open>data = f.read()\<close> on a file opened with \<^verbatim>\<open>'rb'\<close> is a \<^verbatim>\<open>bytes\<close> object:
  \<^verbatim>\<open>data[i]\<close> is an integer between 0 and 255.
\<close>

type_synonym byte = "8 word"

abbreviation newline :: char where
  "newline \<equiv> CHR 0x0A"

subsection \<open>The format specification \<^verbatim>\<open>02X\<close>\<close>

text \<open>
  \<^verbatim>\<open>f'{n:02X}'\<close> renders a non-negative integer in base sixteen with the digits
  \<^verbatim>\<open>0123456789ABCDEF\<close> and pads the result on the left with \<^verbatim>\<open>0\<close> to a width of
  at least two characters.
\<close>

definition hex_digit :: "nat \<Rightarrow> char" where
  "hex_digit d = ''0123456789ABCDEF'' ! d"

function hex_upper :: "nat \<Rightarrow> string" where
  "hex_upper n = (if n < 16 then [hex_digit n] else hex_upper (n div 16) @ [hex_digit (n mod 16)])"
  by pat_completeness auto
termination
  by (relation "measure (\<lambda>n. n)") auto

declare hex_upper.simps [simp del]

definition format_02X :: "nat \<Rightarrow> string" where
  "format_02X n = (let s = hex_upper n in replicate (2 - length s) (CHR ''0'') @ s)"

subsection \<open>Writing the array rows (lines 26 to 37)\<close>

text \<open>
  The output file object is modelled by the text written to it so far;
  \<^verbatim>\<open>f.write(s)\<close> appends \<open>s\<close>.
\<close>

definition f_write :: "string \<Rightarrow> string \<Rightarrow> string" where
  "f_write f s = f @ s"

text \<open>The body of the \<^verbatim>\<open>for\<close> loop, lines 27 to 35, at index \<open>i\<close>.\<close>

definition loop_body :: "byte list \<Rightarrow> nat \<Rightarrow> string \<Rightarrow> string" where
  "loop_body data i f =
     (let f1 = (if i mod 16 = 0 then f_write f ''    '' else f);
          f2 = f_write f1 (''0x'' @ format_02X (unat (data ! i)));
          f3 = (if int i < int (length data) - 1 then f_write f2 '','' else f2)
      in if i mod 16 = 15 then f_write f3 [newline] else f_write f3 '' '')"

text \<open>\<^verbatim>\<open>for i in range(len(data))\<close>, started at index \<open>i\<close>.\<close>

function for_range :: "byte list \<Rightarrow> nat \<Rightarrow> string \<Rightarrow> string" where
  "for_range data i f =
     (if i < length data then for_range data (Suc i) (loop_body data i f) else f)"
  by pat_completeness auto
termination
  by (relation "measure (\<lambda>(data, i, f). length data - i)") auto

declare for_range.simps [simp del]

text \<open>Lines 36 and 37: the newline after a last row that is not full.\<close>

definition ragged_newline :: "byte list \<Rightarrow> string \<Rightarrow> string" where
  "ragged_newline data f = (if length data mod 16 \<noteq> 0 then f_write f [newline] else f)"

text \<open>Lines 26 to 37 together: what is written between the opening line and the closing one.\<close>

definition write_rows :: "byte list \<Rightarrow> string \<Rightarrow> string" where
  "write_rows data f = ragged_newline data (for_range data 0 f)"

definition array_body :: "byte list \<Rightarrow> string" where
  "array_body data = write_rows data []"

subsection \<open>Names (lines 17 to 19)\<close>

text \<open>
  Characters. A \<open>char\<close> below 128 is the ASCII character with that code. A \<open>char\<close> from 128
  on stands for a character outside ASCII that has no case, so that \<^verbatim>\<open>str.upper\<close> and
  \<^verbatim>\<open>str.lower\<close> leave it as it is: a symbol such as the multiplication sign, or the lone
  surrogate that an undecodable byte of a command line argument becomes. Letters outside
  ASCII that have a case are not represented. Which bytes a character becomes in a file is
  for the encoding of the output file to say, see below.

  \<^verbatim>\<open>str.upper\<close> and \<^verbatim>\<open>str.lower\<close> on such strings change exactly the letters \<^verbatim>\<open>a\<close> to
  \<^verbatim>\<open>z\<close> and \<^verbatim>\<open>A\<close> to \<^verbatim>\<open>Z\<close>.
\<close>

definition upper_char :: "char \<Rightarrow> char" where
  "upper_char c =
     (let k = (of_char c :: nat) in if 97 \<le> k \<and> k \<le> 122 then char_of (k - 32) else c)"

definition lower_char :: "char \<Rightarrow> char" where
  "lower_char c =
     (let k = (of_char c :: nat) in if 65 \<le> k \<and> k \<le> 90 then char_of (k + 32) else c)"

definition upper :: "string \<Rightarrow> string" where
  "upper s = map upper_char s"

definition lower :: "string \<Rightarrow> string" where
  "lower s = map lower_char s"

subsection \<open>The text of the header (lines 22 to 39)\<close>

text \<open>
  The body of \<^verbatim>\<open>with open(h_file, 'w') as f\<close>: every \<^verbatim>\<open>f.write\<close> in order, from the
  three names and the data, starting from what \<open>f\<close> holds.
\<close>

definition write_header :: "string \<Rightarrow> string \<Rightarrow> string \<Rightarrow> byte list \<Rightarrow> string \<Rightarrow> string" where
  "write_header upper_name var_name len_name data f =
     (let f1 = f_write f (''#ifndef '' @ upper_name @ ''_H'' @ [newline]);
          f2 = f_write f1 (''#define '' @ upper_name @ ''_H'' @ [newline, newline]);
          f3 = f_write f2 (''unsigned char '' @ var_name @ ''[] = {'' @ [newline]);
          f4 = for_range data 0 f3;
          f5 = ragged_newline data f4
      in f_write f5 (''};'' @ [newline] @ ''unsigned int '' @ len_name @ '' = sizeof('' @ var_name
            @ '');'' @ [newline, newline] @ ''#endif'' @ [newline]))"

text \<open>Lines 17 to 39 without the files: the text written for given bytes and asset name.\<close>

definition document :: "byte list \<Rightarrow> string \<Rightarrow> string" where
  "document data asset_name =
     (let upper_name = upper asset_name;
          var_name = lower asset_name;
          len_name = lower asset_name @ ''_len''
      in write_header upper_name var_name len_name data [])"

subsection \<open>The calls of \<^verbatim>\<open>f.write\<close> in order\<close>

text \<open>
  A text file encodes the argument of each \<^verbatim>\<open>f.write\<close> when the call is made, and the
  call can raise. What the file holds after an exception depends on which call raised, so
  the script is also given as the list of the arguments of its calls, statement by
  statement: lines 27 to 35 at index \<open>i\<close>, the loop of line 26, and lines 22 to 39.
\<close>

definition loop_body_calls :: "byte list \<Rightarrow> nat \<Rightarrow> string list" where
  "loop_body_calls data i =
     (if i mod 16 = 0 then [''    ''] else [])
     @ [''0x'' @ format_02X (unat (data ! i))]
     @ (if int i < int (length data) - 1 then ['',''] else [])
     @ [if i mod 16 = 15 then [newline] else '' '']"

function for_range_calls :: "byte list \<Rightarrow> nat \<Rightarrow> string list" where
  "for_range_calls data i =
     (if i < length data then loop_body_calls data i @ for_range_calls data (Suc i) else [])"
  by pat_completeness auto
termination
  by (relation "measure (\<lambda>(data, i). length data - i)") auto

declare for_range_calls.simps [simp del]

definition write_header_calls :: "string \<Rightarrow> string \<Rightarrow> string \<Rightarrow> byte list \<Rightarrow> string list" where
  "write_header_calls upper_name var_name len_name data =
     [''#ifndef '' @ upper_name @ ''_H'' @ [newline],
      ''#define '' @ upper_name @ ''_H'' @ [newline, newline],
      ''unsigned char '' @ var_name @ ''[] = {'' @ [newline]]
     @ for_range_calls data 0
     @ (if length data mod 16 \<noteq> 0 then [[newline]] else [])
     @ [''};'' @ [newline] @ ''unsigned int '' @ len_name @ '' = sizeof('' @ var_name
          @ '');'' @ [newline, newline] @ ''#endif'' @ [newline]]"

subsection \<open>The process and its files\<close>

text \<open>
  What the script can observe and change: the files by path, whether a path can be opened
  for reading, whether it can be opened for writing (created or truncated), how many bytes
  the file at a path can take before a write fails (\<open>None\<close>: no limit), the two output
  streams, and what \<^verbatim>\<open>open(h_file, 'w')\<close> takes from the environment: the encoding of text
  files, as the bytes of each character (\<open>None\<close>: the encoding has no bytes for it), and
  the line separator that replaces a newline (\<^verbatim>\<open>os.linesep\<close>). Encodings that start a
  file with a byte order mark are not represented.
\<close>

datatype error = IOError | UnicodeEncodeError

datatype outcome = Finished | SysExit int | Raised error

record world =
  files :: "string \<Rightarrow> byte list option"
  readable :: "string \<Rightarrow> bool"
  creatable :: "string \<Rightarrow> bool"
  room :: "string \<Rightarrow> nat option"
  stdout :: string
  stderr :: string
  encoding :: "char \<Rightarrow> byte list option"
  linesep :: string

text \<open>
  The exit status of the interpreter: 0 when the script runs to its end, the argument of
  \<^verbatim>\<open>sys.exit\<close>, and 1 for an exception nobody catches.
\<close>

fun exit_status :: "outcome \<Rightarrow> int" where
  "exit_status Finished = 0"
| "exit_status (SysExit n) = n"
| "exit_status (Raised e) = 1"

text \<open>\<^verbatim>\<open>print(s)\<close> writes \<open>s\<close> and a newline to the standard output.\<close>

definition print :: "world \<Rightarrow> string \<Rightarrow> world" where
  "print w s = w\<lparr>stdout := stdout w @ s @ [newline]\<rparr>"

text \<open>Lines 14 and 15: \<^verbatim>\<open>open(png_file, 'rb')\<close> and \<^verbatim>\<open>f.read()\<close>.\<close>

definition read_bytes :: "world \<Rightarrow> string \<Rightarrow> error + byte list" where
  "read_bytes w p =
     (case files w p of
        None \<Rightarrow> Inl IOError
      | Some bs \<Rightarrow> if readable w p then Inr bs else Inl IOError)"

text \<open>Line 21: \<^verbatim>\<open>open(h_file, 'w')\<close> creates the file or empties it.\<close>

definition open_w :: "world \<Rightarrow> string \<Rightarrow> error + world" where
  "open_w w p =
     (if creatable w p then Inr (w\<lparr>files := (files w)(p \<mapsto> [])\<rparr>) else Inl IOError)"

text \<open>
  \<^verbatim>\<open>f.write(s)\<close> on a text file replaces every newline of \<open>s\<close> by the line separator and
  encodes the result, character by character; a character the encoding has no bytes for
  raises \<^verbatim>\<open>UnicodeEncodeError\<close>, and then nothing of \<open>s\<close> is accepted.
\<close>

definition translate_newlines :: "string \<Rightarrow> string \<Rightarrow> string" where
  "translate_newlines sep s = concat (map (\<lambda>c. if c = newline then sep else [c]) s)"

fun encode_chars :: "(char \<Rightarrow> byte list option) \<Rightarrow> string \<Rightarrow> byte list option" where
  "encode_chars enc [] = Some []"
| "encode_chars enc (c # cs) =
     (case enc c of
        None \<Rightarrow> None
      | Some b \<Rightarrow> (case encode_chars enc cs of None \<Rightarrow> None | Some bs \<Rightarrow> Some (b @ bs)))"

definition encode :: "world \<Rightarrow> string \<Rightarrow> byte list option" where
  "encode w s = encode_chars (encoding w) (translate_newlines (linesep w) s)"

text \<open>
  The calls of the \<^verbatim>\<open>with\<close> block in order, from the bytes accepted so far: the first
  call that raises ends the block, with the bytes of the calls before it accepted.
\<close>

fun write_all :: "world \<Rightarrow> byte list \<Rightarrow> string list \<Rightarrow> error option \<times> byte list" where
  "write_all w acc [] = (None, acc)"
| "write_all w acc (s # ss) =
     (case encode w s of
        None \<Rightarrow> (Some UnicodeEncodeError, acc)
      | Some bs \<Rightarrow> write_all w (acc @ bs) ss)"

text \<open>
  Leaving the \<^verbatim>\<open>with\<close> block closes the file, by the end of the block or by an exception.
  A file object buffers the bytes it accepted and hands them to the system in order, at the
  latest now. When the file cannot take them all, \<^verbatim>\<open>IOError\<close> is raised, by the call that
  fills the buffer or by the closing, in the place of an exception that was under way, and
  the file is left with the bytes that went through.
\<close>

definition close_file ::
  "world \<Rightarrow> string \<Rightarrow> error option \<times> byte list \<Rightarrow> error option \<times> world" where
  "close_file w p r =
     (case room w p of
        None \<Rightarrow> (fst r, w\<lparr>files := (files w)(p \<mapsto> snd r)\<rparr>)
      | Some k \<Rightarrow>
          if length (snd r) \<le> k then (fst r, w\<lparr>files := (files w)(p \<mapsto> snd r)\<rparr>)
          else (Some IOError, w\<lparr>files := (files w)(p \<mapsto> take k (snd r))\<rparr>))"

text \<open>The script, from \<^verbatim>\<open>sys.argv\<close> and the world it starts in.\<close>

definition usage :: string where
  "usage = ''Usage: python3 png_to_c.py <png_file> <output_h_file> <asset_name>''"

definition main :: "string list \<Rightarrow> world \<Rightarrow> outcome \<times> world" where
  "main argv w =
     (if length argv \<noteq> 4 then (SysExit 1, print w usage)
      else
        (let png_file = argv ! 1; h_file = argv ! 2; asset_name = argv ! 3 in
         (case read_bytes w png_file of
            Inl e \<Rightarrow> (Raised e, w)
          | Inr data \<Rightarrow>
              (let upper_name = upper asset_name;
                   var_name = lower asset_name;
                   len_name = lower asset_name @ ''_len''
               in (case open_w w h_file of
                     Inl e \<Rightarrow> (Raised e, w)
                   | Inr w1 \<Rightarrow>
                       (let r = close_file w1 h_file
                                  (write_all w1 []
                                     (write_header_calls upper_name var_name len_name data))
                        in (case fst r of
                              None \<Rightarrow> (Finished, snd r)
                            | Some e \<Rightarrow> (Raised e, snd r))))))))"

subsection \<open>Views of the output used in the statements\<close>

text \<open>
  What one pass of the loop body appends at index \<open>i\<close>: the indent at the start of a row,
  the literal, the comma, and the space or the newline.
\<close>

definition piece :: "byte list \<Rightarrow> nat \<Rightarrow> string" where
  "piece data i =
     (if i mod 16 = 0 then ''    '' else []) @ ''0x'' @ format_02X (unat (data ! i))
     @ (if Suc i < length data then '','' else []) @ (if i mod 16 = 15 then [newline] else '' '')"

text \<open>The text of lines 22 to 24 and of line 39, for an asset name.\<close>

definition opening_text :: "string \<Rightarrow> string" where
  "opening_text asset_name =
     ''#ifndef '' @ upper asset_name @ ''_H'' @ [newline]
     @ ''#define '' @ upper asset_name @ ''_H'' @ [newline, newline]
     @ ''unsigned char '' @ lower asset_name @ ''[] = {'' @ [newline]"

definition closing_text :: "string \<Rightarrow> string" where
  "closing_text asset_name =
     ''};'' @ [newline] @ ''unsigned int '' @ (lower asset_name @ ''_len'') @ '' = sizeof(''
     @ lower asset_name @ '');'' @ [newline, newline] @ ''#endif'' @ [newline]"

text \<open>
  Reading the array back, as a C compiler reads the initialiser: every \<^verbatim>\<open>0x\<close> followed
  by two hexadecimal digits is one byte; everything else separates.
\<close>

definition hex_val :: "char \<Rightarrow> nat option" where
  "hex_val c =
     (let k = (of_char c :: nat) in
      if 48 \<le> k \<and> k \<le> 57 then Some (k - 48)
      else if 65 \<le> k \<and> k \<le> 70 then Some (k - 55)
      else if 97 \<le> k \<and> k \<le> 102 then Some (k - 87)
      else None)"

fun parse_hex_bytes :: "string \<Rightarrow> byte list" where
  "parse_hex_bytes (a # b # c # d # rest) =
     (if a = CHR ''0'' \<and> b = CHR ''x'' then
        (case (hex_val c, hex_val d) of
           (Some h, Some l) \<Rightarrow> of_nat (16 * h + l) # parse_hex_bytes rest
         | _ \<Rightarrow> parse_hex_bytes (b # c # d # rest))
      else parse_hex_bytes (b # c # d # rest))"
| "parse_hex_bytes s = []"

text \<open>The lines of a text: the stretches ended by a newline, and what follows the last one.\<close>

fun split_lines :: "string \<Rightarrow> string list" where
  "split_lines [] = []"
| "split_lines (c # cs) =
     (if c = newline then [] # split_lines cs
      else (case split_lines cs of [] \<Rightarrow> [[c]] | l # ls \<Rightarrow> (c # l) # ls))"

text \<open>What the loop writes from index \<open>i\<close> on, with the newline of lines 36 and 37.\<close>

definition rest_from :: "byte list \<Rightarrow> nat \<Rightarrow> string" where
  "rest_from data i =
     concat (map (piece data) [i..<length data])
     @ (if length data mod 16 \<noteq> 0 then [newline] else [])"

text \<open>
  \<open>starts_with s p\<close>: the text \<open>s\<close> begins with \<open>p\<close>; \<open>contains s p\<close>: the text \<open>p\<close> occurs in
  \<open>s\<close> as one stretch of characters.
\<close>

fun starts_with :: "string \<Rightarrow> string \<Rightarrow> bool" where
  "starts_with s [] = True"
| "starts_with [] (p # ps) = False"
| "starts_with (c # cs) (p # ps) = (c = p \<and> starts_with cs ps)"

fun contains :: "string \<Rightarrow> string \<Rightarrow> bool" where
  "contains [] p = (p = [])"
| "contains (c # cs) p = (starts_with (c # cs) p \<or> contains cs p)"

text \<open>
  The bytes the file object has accepted when the \<^verbatim>\<open>with\<close> block is left, for the bytes
  read and an asset name.
\<close>

definition accepted :: "world \<Rightarrow> byte list \<Rightarrow> string \<Rightarrow> byte list" where
  "accepted w data asset_name =
     snd (write_all w []
            (write_header_calls (upper asset_name) (lower asset_name)
               (lower asset_name @ ''_len'') data))"


definition latin1_codec :: "char \<Rightarrow> byte list option" where
  "latin1_codec c = Some [of_char c]"

definition utf8_codec :: "char \<Rightarrow> byte list option" where
  "utf8_codec c =
     (let k = (of_char c :: nat) in
      if k < 128 then Some [of_nat k] else Some [of_nat (192 + k div 64), of_nat (128 + k mod 64)])"

text \<open>
  A world to run the script in: one input file of two bytes, every path readable and
  writable, nothing printed yet, UTF-8 and the line separator of POSIX systems.
\<close>

definition example_world :: world where
  "example_world =
     \<lparr>files = [''in.png'' \<mapsto> [0x89, 0x50]], readable = (\<lambda>p. True), creatable = (\<lambda>p. True),
      room = (\<lambda>p. None), stdout = [], stderr = [], encoding = utf8_codec,
      linesep = [newline]\<rparr>"

section \<open>Properties\<close>

subsection \<open>Hexadecimal digits\<close>

lemma hex_upper_small: "n < 16 \<Longrightarrow> hex_upper n = [hex_digit n]"
  by (subst hex_upper.simps) simp

lemma hex_upper_two:
  "16 \<le> n \<Longrightarrow> n < 256 \<Longrightarrow> hex_upper n = [hex_digit (n div 16), hex_digit (n mod 16)]"
  by (subst hex_upper.simps) (simp add: hex_upper_small less_mult_imp_div_less)

lemma hex_digit_0: "hex_digit 0 = CHR ''0''"
  by (simp add: hex_digit_def)

lemma format_02X_byte:
  "n < 256 \<Longrightarrow> format_02X n = [hex_digit (n div 16), hex_digit (n mod 16)]"
  by (cases "n < 16") (simp_all add: format_02X_def hex_upper_small hex_upper_two hex_digit_0)

lemma unat_byte_less: "unat (b :: byte) < 256"
  using unsigned_less [of b, where ?'a = nat] by simp

lemma less_16_cases:
  "d < 16 \<Longrightarrow> d = 0 \<or> d = 1 \<or> d = 2 \<or> d = 3 \<or> d = 4 \<or> d = 5 \<or> d = 6 \<or> d = 7 \<or> d = 8
     \<or> d = 9 \<or> d = 10 \<or> d = 11 \<or> d = 12 \<or> d = 13 \<or> d = 14 \<or> d = (15::nat)"
  by presburger

lemma hex_digit_code:
  "d < 16 \<Longrightarrow> (of_char (hex_digit d) :: nat) = (if d < 10 then 48 + d else 55 + d)"
  by (drule less_16_cases) (elim disjE; simp add: hex_digit_def)

lemma hex_val_digit: "d < 16 \<Longrightarrow> hex_val (hex_digit d) = Some d"
  by (simp add: hex_val_def hex_digit_code Let_def)

lemma hex_digit_not_newline: "d < 16 \<Longrightarrow> hex_digit d \<noteq> newline"
proof
  assume "d < 16" and "hex_digit d = newline"
  then have "(of_char newline :: nat) = (if d < 10 then 48 + d else 55 + d)"
    using hex_digit_code [of d] by simp
  then show False by (simp split: if_splits)
qed

lemma hex_digit_in_table: "d < 16 \<Longrightarrow> hex_digit d \<in> set ''0123456789ABCDEF''"
  unfolding hex_digit_def by (rule nth_mem) simp

subsection \<open>The loop as a concatenation\<close>

lemma loop_body_piece: "loop_body data i f = f @ piece data i"
  by (auto simp: loop_body_def piece_def f_write_def Let_def)

lemma for_range_pieces: "for_range data i f = f @ concat (map (piece data) [i..<length data])"
proof (induction data i f rule: for_range.induct)
  case (1 data i f)
  show ?case
  proof (cases "i < length data")
    case True
    then show ?thesis
      using 1 by (subst for_range.simps) (simp add: loop_body_piece upt_conv_Cons)
  next
    case False
    then show ?thesis by (subst for_range.simps) simp
  qed
qed

lemma array_body_pieces:
  "array_body data =
     concat (map (piece data) [0..<length data]) @ (if length data mod 16 \<noteq> 0 then [newline] else [])"
  by (simp add: array_body_def write_rows_def ragged_newline_def for_range_pieces f_write_def)

lemma write_header_parts:
  "write_header (upper n) (lower n) (lower n @ ''_len'') data [] =
     opening_text n @ array_body data @ closing_text n"
  by (simp add: write_header_def opening_text_def closing_text_def array_body_pieces
      ragged_newline_def for_range_pieces f_write_def Let_def)

lemma document_parts:
  "document data asset_name = opening_text asset_name @ array_body data @ closing_text asset_name"
  by (simp add: document_def Let_def write_header_parts)

subsection \<open>Reading the literals back\<close>

lemma parse_skip:
  assumes "a \<noteq> CHR ''0''"
  shows "parse_hex_bytes (a # s) = parse_hex_bytes s"
proof -
  consider "length s < 3" | b c d rest where "s = b # c # d # rest"
    by (cases s; cases "tl s"; cases "tl (tl s)") auto
  then show ?thesis
  proof cases
    case 1
    then have "parse_hex_bytes (a # s) = []"
      by (cases s; cases "tl s"; cases "tl (tl s)") auto
    moreover from 1 have "parse_hex_bytes s = []"
      by (cases s; cases "tl s"; cases "tl (tl s)") auto
    ultimately show ?thesis by simp
  next
    case 2
    with assms show ?thesis by simp
  qed
qed

lemma parse_literal:
  "h < 16 \<Longrightarrow> l < 16 \<Longrightarrow>
   parse_hex_bytes (CHR ''0'' # CHR ''x'' # hex_digit h # hex_digit l # rest)
     = of_nat (16 * h + l) # parse_hex_bytes rest"
  by (simp add: hex_val_digit)

lemma parse_piece: "parse_hex_bytes (piece data i @ rest) = data ! i # parse_hex_bytes rest"
proof -
  let ?n = "unat (data ! i)"
  let ?sep = "(if Suc i < length data then '','' else [])
                @ (if i mod 16 = 15 then [newline] else '' '') @ rest"
  have n: "?n < 256" by (rule unat_byte_less)
  then have h: "?n div 16 < 16" by simp
  have l: "?n mod 16 < 16" by simp
  have tail: "parse_hex_bytes ?sep = parse_hex_bytes rest"
    by (simp add: parse_skip)
  have lit: "parse_hex_bytes (CHR ''0'' # CHR ''x'' # hex_digit (?n div 16) # hex_digit (?n mod 16) # ?sep)
               = data ! i # parse_hex_bytes rest"
    unfolding parse_literal [OF h l] tail by simp
  have split: "piece data i @ rest =
      (if i mod 16 = 0 then ''    '' else [])
        @ CHR ''0'' # CHR ''x'' # hex_digit (?n div 16) # hex_digit (?n mod 16) # ?sep"
    by (simp add: piece_def format_02X_byte [OF n])
  show ?thesis
  proof (cases "i mod 16 = 0")
    case True
    then have "parse_hex_bytes (piece data i @ rest) =
        parse_hex_bytes (CHR ''0'' # CHR ''x'' # hex_digit (?n div 16) # hex_digit (?n mod 16) # ?sep)"
      unfolding split by (simp add: parse_skip del: parse_hex_bytes.simps)
    then show ?thesis using lit by simp
  next
    case False
    then show ?thesis unfolding split using lit by simp
  qed
qed

lemma parse_pieces:
  "parse_hex_bytes (concat (map (piece data) [i..<j]) @ rest)
     = map ((!) data) [i..<j] @ parse_hex_bytes rest"
proof (induction "j - i" arbitrary: i)
  case 0
  then show ?case by simp
next
  case (Suc k)
  then have "i < j" by simp
  then have "[i..<j] = i # [Suc i..<j]" by (simp add: upt_conv_Cons)
  moreover have "k = j - Suc i" using Suc by simp
  ultimately show ?case
    using Suc(1) [of "Suc i"] by (simp add: parse_piece del: parse_hex_bytes.simps)
qed

text \<open>
  C1. Reading the hexadecimal literals of the array body back gives the bytes that were
  read from the input, in order and as many, for every input (the empty one too); the body
  is the part of the document between the opening and the closing text, and only those two
  depend on the asset name.
\<close>

theorem roundtrip_array_body:
  "parse_hex_bytes (array_body data) = data
   \<and> document data asset_name = opening_text asset_name @ array_body data @ closing_text asset_name"
proof
  have "parse_hex_bytes (if length data mod 16 \<noteq> 0 then [newline] else []) = []" by simp
  then show "parse_hex_bytes (array_body data) = data"
    unfolding array_body_pieces using parse_pieces [of data 0 "length data"]
    by (simp add: map_nth del: parse_hex_bytes.simps)
next
  show "document data asset_name = opening_text asset_name @ array_body data @ closing_text asset_name"
    by (rule document_parts)
qed

subsection \<open>Sixteen to a row\<close>

lemma div_16_Suc: "Suc n div 16 = n div 16 + (if n mod 16 = 15 then 1 else 0)"
  by (simp add: div_Suc mod_Suc)

lemma mod_16_Suc: "Suc i mod 16 = 0 \<longleftrightarrow> i mod 16 = 15"
  by (simp add: mod_Suc)

lemma ceil_16: "(n + 15) div 16 = n div 16 + (if n mod 16 \<noteq> 0 then 1 else (0::nat))"
proof -
  have "(n + 15) div 16 = (n mod 16 + 15 + 16 * (n div 16)) div 16"
    by (simp add: add.commute add.left_commute)
  also have "\<dots> = (n mod 16 + 15) div 16 + n div 16"
    by (simp only: div_mult_self2)
  also have "(n mod 16 + 15) div 16 = (if n mod 16 \<noteq> 0 then 1 else 0)"
  proof (cases "n mod 16 = 0")
    case True
    then show ?thesis by simp
  next
    case False
    have "n mod 16 < 16" by simp
    with False have "(n mod 16 + 15) div 16 = 1"
      by (intro div_nat_eqI) simp_all
    with False show ?thesis by simp
  qed
  finally show ?thesis by simp
qed

subsection \<open>Newlines and lines\<close>

lemma split_lines_Nil_iff: "split_lines s = [] \<longleftrightarrow> s = []"
  by (cases s) (auto split: list.splits)

lemma length_split_lines:
  "length (split_lines s) = count_list s newline + (if s = [] \<or> last s = newline then 0 else 1)"
proof (induction s)
  case Nil
  then show ?case by simp
next
  case (Cons c cs)
  show ?case
  proof (cases "c = newline")
    case True
    with Cons show ?thesis by (cases "cs = []") auto
  next
    case False
    show ?thesis
    proof (cases "split_lines cs")
      case Nil
      then have "cs = []" by (simp add: split_lines_Nil_iff)
      with False show ?thesis by simp
    next
      case (Cons l ls)
      then have ne: "cs \<noteq> []" by auto
      from Cons have "length (split_lines (c # cs)) = length (split_lines cs)"
        using False by simp
      with Cons.IH False ne show ?thesis by simp
    qed
  qed
qed

lemma count_format: "n < 256 \<Longrightarrow> count_list (format_02X n) newline = 0"
proof -
  assume n: "n < 256"
  then have "n div 16 < 16" by simp
  then show ?thesis
    using hex_digit_not_newline [of "n div 16"] hex_digit_not_newline [of "n mod 16"]
    by (simp add: format_02X_byte [OF n])
qed

lemma count_piece: "count_list (piece data i) newline = (if i mod 16 = 15 then 1 else 0)"
  by (simp add: piece_def count_format [OF unat_byte_less])

lemma count_pieces: "count_list (concat (map (piece data) [0..<n])) newline = n div 16"
proof (induction n)
  case 0
  then show ?case by simp
next
  case (Suc n)
  then show ?case by (simp add: count_piece div_16_Suc)
qed

lemma count_array_body: "count_list (array_body data) newline = (length data + 15) div 16"
  by (simp add: array_body_pieces count_pieces ceil_16)

lemma last_piece: "last (piece data i) = (if i mod 16 = 15 then newline else CHR '' '')"
  by (simp add: piece_def)

lemma piece_not_Nil: "piece data i \<noteq> []"
  by (simp add: piece_def)

lemma last_array_body: "data \<noteq> [] \<Longrightarrow> last (array_body data) = newline"
proof -
  assume ne: "data \<noteq> []"
  show ?thesis
  proof (cases "length data mod 16 = 0")
    case False
    then show ?thesis by (simp add: array_body_pieces)
  next
    case True
    from ne obtain n where n: "length data = Suc n" by (cases data) auto
    with True have m: "n mod 16 = 15" by (simp add: mod_16_Suc)
    have "array_body data = concat (map (piece data) [0..<n]) @ piece data n"
      using True n by (simp add: array_body_pieces)
    then show ?thesis using m by (simp add: piece_not_Nil last_piece)
  qed
qed

lemma set_pair_subset: "x \<in> S \<Longrightarrow> y \<in> S \<Longrightarrow> set [x, y] \<subseteq> S"
  by simp

lemma array_body_Nil: "array_body [] = []"
  by (simp add: array_body_pieces)

text \<open>
  C2, as the code has it. The newline after the loop is written exactly when the number
  of bytes is not a multiple of 16. Zero is a multiple of 16: for the empty input nothing
  is written between the opening line and the closing one, and the body has no line.
\<close>

theorem ragged_newline_rule:
  "write_rows data f
     = for_range data 0 f @ (if length data mod 16 = 0 then [] else [newline])
   \<and> array_body [] = []
   \<and> document [] asset_name = opening_text asset_name @ closing_text asset_name"
  by (simp add: write_rows_def ragged_newline_def f_write_def array_body_Nil document_parts)

theorem ragged_newline_rule_witness:
  "write_rows [0, 1, 2] ''{'' = for_range [0, 1, 2] 0 ''{'' @ [newline]
   \<and> write_rows [] ''{'' = ''{''"
  using ragged_newline_rule [of "[0, 1, 2]" "''{''"] ragged_newline_rule [of "[]" "''{''"]
  by (simp add: for_range.simps)

text \<open>
  C2 as stated fails on the empty input: no newline follows the loop, and the body is
  not one empty line.
\<close>

theorem empty_input_counterexample:
  "ragged_newline [] [] = [] \<and> array_body [] \<noteq> [newline] \<and> split_lines (array_body []) = []"
  by (simp add: ragged_newline_def array_body_Nil)

text \<open>
  C3. At every index \<open>i\<close> of the input the loop body appends, in this order, the indent
  when a row starts, the literal, a comma exactly when \<open>i\<close> is not the last index, and then
  a newline exactly when \<open>i mod 16 = 15\<close>, a single space otherwise. So between two
  consecutive literals there is a comma and a space within a row, and a comma, a newline
  and the indent of the next row at a row boundary; and the loop writes these pieces in
  the order of the indices.
\<close>

theorem separator_placement:
  assumes "i < length data"
  shows "loop_body data i f
      = f @ (if i mod 16 = 0 then ''    '' else []) @ ''0x'' @ format_02X (unat (data ! i))
          @ (if i < length data - 1 then '','' else [])
          @ (if i mod 16 = 15 then [newline] else '' '')
    \<and> (if Suc i < length data then
          loop_body data (Suc i) (loop_body data i f)
            = f @ (if i mod 16 = 0 then ''    '' else []) @ ''0x'' @ format_02X (unat (data ! i))
                @ (if i mod 16 = 15 then '','' @ [newline] @ ''    '' else '', '')
                @ ''0x'' @ format_02X (unat (data ! Suc i))
                @ (if Suc i < length data - 1 then '','' else [])
                @ (if Suc i mod 16 = 15 then [newline] else '' '')
        else for_range data i f = loop_body data i f)
    \<and> for_range data 0 f = f @ concat (map (\<lambda>j. loop_body data j []) [0..<length data])"
proof (intro conjI)
  have lt: "i < length data - Suc 0 \<longleftrightarrow> Suc i < length data" using assms by auto
  show one: "loop_body data i f
      = f @ (if i mod 16 = 0 then ''    '' else []) @ ''0x'' @ format_02X (unat (data ! i))
          @ (if i < length data - 1 then '','' else [])
          @ (if i mod 16 = 15 then [newline] else '' '')"
    by (simp add: loop_body_piece piece_def lt)
  show "if Suc i < length data then
          loop_body data (Suc i) (loop_body data i f)
            = f @ (if i mod 16 = 0 then ''    '' else []) @ ''0x'' @ format_02X (unat (data ! i))
                @ (if i mod 16 = 15 then '','' @ [newline] @ ''    '' else '', '')
                @ ''0x'' @ format_02X (unat (data ! Suc i))
                @ (if Suc i < length data - 1 then '','' else [])
                @ (if Suc i mod 16 = 15 then [newline] else '' '')
        else for_range data i f = loop_body data i f"
  proof (cases "Suc i < length data")
    case True
    have m: "Suc i mod 16 = 0 \<longleftrightarrow> i mod 16 = 15" by (rule mod_16_Suc)
    have lt': "Suc i < length data - Suc 0 \<longleftrightarrow> Suc (Suc i) < length data" by auto
    from True show ?thesis
      by (simp add: loop_body_piece piece_def m lt')
  next
    case False
    with assms have "[i..<length data] = [i]" by (simp add: upt_conv_Cons)
    with False show ?thesis by (simp add: for_range_pieces loop_body_piece)
  qed
  show "for_range data 0 f = f @ concat (map (\<lambda>j. loop_body data j []) [0..<length data])"
    by (simp add: for_range_pieces loop_body_piece)
qed

theorem separator_placement_witness:
  "(0::nat) < length [0x0A, 0xFF :: byte]
   \<and> loop_body [0x0A, 0xFF] 0 [] = ''    0x0A, ''
   \<and> loop_body [0x0A, 0xFF] (Suc 0) (loop_body [0x0A, 0xFF] 0 []) = ''    0x0A, 0xFF ''"
  using separator_placement [of 0 "[0x0A, 0xFF]" "[]"]
  by (simp add: loop_body_piece piece_def format_02X_byte hex_digit_def)

lemma upt_split: "i < n \<Longrightarrow> [0..<n] = [0..<i] @ i # [Suc i..<n]"
proof -
  assume "i < n"
  then have "[0..<n] = [0..<i] @ [i..<n]"
    using upt_add_eq_append [of 0 i "n - i"] by simp
  with \<open>i < n\<close> show ?thesis by (simp add: upt_conv_Cons)
qed

text \<open>
  C4. Every byte is rendered as two digits out of \<^verbatim>\<open>0123456789ABCDEF\<close>, the first for
  the value divided by 16 and the second for the rest, so that they denote the byte. At
  every index \<open>i\<close> of the input the loop body puts \<^verbatim>\<open>0x\<close> before the digits of the byte at
  \<open>i\<close>, and before that four spaces exactly when \<open>i mod 16 = 0\<close>; the loop writes this text
  for every index in order, so that it stands in the array body, and in the document,
  after the texts of the indices before \<open>i\<close> and before those of the indices after \<open>i\<close>.
\<close>

theorem value_rendering:
  assumes "i < length data"
  shows "format_02X (unat (b :: byte)) = [hex_digit (unat b div 16), hex_digit (unat b mod 16)]
   \<and> set (format_02X (unat b)) \<subseteq> set ''0123456789ABCDEF''
   \<and> map hex_val (format_02X (unat b)) = [Some (unat b div 16), Some (unat b mod 16)]
   \<and> take (length f + (if i mod 16 = 0 then 8 else 4)) (loop_body data i f)
       = f @ (if i mod 16 = 0 then ''    '' else []) @ ''0x'' @ format_02X (unat (data ! i))
   \<and> for_range data 0 f = f @ concat (map (\<lambda>j. loop_body data j []) [0..<length data])
   \<and> array_body data
       = concat (map (\<lambda>j. loop_body data j []) [0..<i])
         @ loop_body data i []
         @ concat (map (\<lambda>j. loop_body data j []) [Suc i..<length data])
         @ (if length data mod 16 = 0 then [] else [newline])
   \<and> document data asset_name = opening_text asset_name @ array_body data @ closing_text asset_name
   \<and> format_02X (unat (0x0A :: byte)) = ''0A'' \<and> format_02X (unat (0xFF :: byte)) = ''FF''"
proof (intro conjI)
  have n: "unat b < 256" by (rule unat_byte_less)
  then have h: "unat b div 16 < 16" by simp
  have l: "unat b mod 16 < 16" by simp
  have di: "unat (data ! i) < 256" by (rule unat_byte_less)
  show two: "format_02X (unat b) = [hex_digit (unat b div 16), hex_digit (unat b mod 16)]"
    by (rule format_02X_byte [OF n])
  show "set (format_02X (unat b)) \<subseteq> set ''0123456789ABCDEF''"
    unfolding two by (rule set_pair_subset [OF hex_digit_in_table [OF h] hex_digit_in_table [OF l]])
  show "map hex_val (format_02X (unat b)) = [Some (unat b div 16), Some (unat b mod 16)]"
    unfolding two by (simp add: hex_val_digit [OF h] hex_val_digit [OF l])
  show "take (length f + (if i mod 16 = 0 then 8 else 4)) (loop_body data i f)
       = f @ (if i mod 16 = 0 then ''    '' else []) @ ''0x'' @ format_02X (unat (data ! i))"
    by (simp add: loop_body_piece piece_def format_02X_byte [OF di])
  show "for_range data 0 f = f @ concat (map (\<lambda>j. loop_body data j []) [0..<length data])"
    by (simp add: for_range_pieces loop_body_piece)
  show "array_body data
       = concat (map (\<lambda>j. loop_body data j []) [0..<i])
         @ loop_body data i []
         @ concat (map (\<lambda>j. loop_body data j []) [Suc i..<length data])
         @ (if length data mod 16 = 0 then [] else [newline])"
    unfolding array_body_pieces upt_split [OF assms] by (simp add: loop_body_piece)
  show "document data asset_name = opening_text asset_name @ array_body data @ closing_text asset_name"
    by (rule document_parts)
  show "format_02X (unat (0x0A :: byte)) = ''0A''"
    by (simp add: format_02X_byte hex_digit_def)
  show "format_02X (unat (0xFF :: byte)) = ''FF''"
    by (simp add: format_02X_byte hex_digit_def)
qed

theorem value_rendering_witness:
  "Suc 0 < length [0x0A, 0xFF :: byte]
   \<and> take 4 (loop_body [0x0A, 0xFF] (Suc 0) []) = ''0xFF''
   \<and> array_body [0x0A, 0xFF] = ''    0x0A, 0xFF '' @ [newline]"
  using value_rendering [of "Suc 0" "[0x0A, 0xFF]" 0 "[]" "[]"]
  by (simp add: loop_body_piece piece_def format_02X_byte hex_digit_def)

subsection \<open>Every line is a row of literals\<close>

lemma split_lines_line:
  "newline \<notin> set s \<Longrightarrow> split_lines (s @ newline # t) = s # split_lines t"
  by (induction s) auto

lemma split_lines_prefix:
  "newline \<notin> set s \<Longrightarrow> t \<noteq> [] \<Longrightarrow>
   split_lines (s @ t) = (s @ hd (split_lines t)) # tl (split_lines t)"
proof (induction s)
  case Nil
  then have "split_lines t \<noteq> []" by (simp add: split_lines_Nil_iff)
  then show ?case by simp
next
  case (Cons c s)
  then show ?case by auto
qed

lemma format_no_newline: "n < 256 \<Longrightarrow> newline \<notin> set (format_02X n)"
proof -
  assume n: "n < 256"
  then have "n div 16 < 16" by simp
  then show ?thesis
    using hex_digit_not_newline [of "n div 16"] hex_digit_not_newline [of "n mod 16"]
    by (auto simp: format_02X_byte [OF n])
qed

lemma piece_no_newline: "i mod 16 \<noteq> 15 \<Longrightarrow> newline \<notin> set (piece data i)"
  using format_no_newline [OF unat_byte_less, of "data ! i"] by (simp add: piece_def)

lemma piece_row_end:
  "i mod 16 = 15 \<Longrightarrow> piece data i = butlast (piece data i) @ [newline]
     \<and> newline \<notin> set (butlast (piece data i))"
  using format_no_newline [OF unat_byte_less, of "data ! i"]
  by (simp add: piece_def butlast_append)

lemma piece_indent: "i mod 16 = 0 \<Longrightarrow> starts_with (piece data i @ t) ''    0x''"
  by (simp add: piece_def)

lemma rest_from_step:
  "i < length data \<Longrightarrow> rest_from data i = piece data i @ rest_from data (Suc i)"
  by (simp add: rest_from_def upt_conv_Cons)

lemma rows_from:
  "i \<le> length data \<Longrightarrow>
   (if i mod 16 = 0 then list_all (\<lambda>l. starts_with l ''    0x'') (split_lines (rest_from data i))
    else split_lines (rest_from data i) \<noteq> []
         \<and> list_all (\<lambda>l. starts_with l ''    0x'') (tl (split_lines (rest_from data i))))"
proof (induction "length data - i" arbitrary: i)
  case 0
  then have "i = length data" by simp
  then show ?case by (simp add: rest_from_def)
next
  case (Suc k)
  then have lt: "i < length data" and k: "k = length data - Suc i" and le: "Suc i \<le> length data"
    by simp_all
  note IH = Suc(1) [OF k le]
  note step = rest_from_step [OF lt]
  show ?case
  proof (cases "i mod 16 = 15")
    case True
    then have z: "Suc i mod 16 = 0" by (simp add: mod_16_Suc)
    from piece_row_end [OF True, of data]
    have p: "piece data i = butlast (piece data i) @ [newline]"
      and nn: "newline \<notin> set (butlast (piece data i))" by simp_all
    have "rest_from data i = butlast (piece data i) @ newline # rest_from data (Suc i)"
      using step p by (metis append.assoc append_Cons append_Nil)
    then have "split_lines (rest_from data i)
        = butlast (piece data i) # split_lines (rest_from data (Suc i))"
      using split_lines_line [OF nn] by simp
    with IH z True show ?thesis by simp
  next
    case False
    then have nz: "Suc i mod 16 \<noteq> 0" by (simp add: mod_16_Suc)
    with IH have ne: "split_lines (rest_from data (Suc i)) \<noteq> []"
      and good: "list_all (\<lambda>l. starts_with l ''    0x'') (tl (split_lines (rest_from data (Suc i))))"
      by simp_all
    from ne have "rest_from data (Suc i) \<noteq> []" by (simp add: split_lines_Nil_iff)
    then have sp: "split_lines (rest_from data i)
        = (piece data i @ hd (split_lines (rest_from data (Suc i))))
          # tl (split_lines (rest_from data (Suc i)))"
      unfolding step by (rule split_lines_prefix [OF piece_no_newline [OF False]])
    show ?thesis
    proof (cases "i mod 16 = 0")
      case True
      with sp good piece_indent [OF True] show ?thesis by simp
    next
      case False
      with sp good show ?thesis by simp
    qed
  qed
qed

lemma array_body_lines:
  "list_all (\<lambda>l. starts_with l ''    0x'') (split_lines (array_body data))"
  using rows_from [of 0 data] by (simp add: rest_from_def array_body_pieces)

text \<open>
  C5. For a non-empty input the array body has exactly \<open>\<lceil>N / 16\<rceil>\<close> lines, each starting
  with the indent and a literal and each ended by its newline; when \<open>N\<close> is a multiple of
  16 nothing is written after the loop, so the last full row is ended by its own newline
  only.
\<close>

theorem row_count:
  assumes "data \<noteq> []"
  shows "length (split_lines (array_body data)) = (length data + 15) div 16
    \<and> list_all (\<lambda>l. starts_with l ''    0x'') (split_lines (array_body data))
    \<and> count_list (array_body data) newline = (length data + 15) div 16
    \<and> last (array_body data) = newline
    \<and> (if length data mod 16 = 0 then ragged_newline data f = f
        else ragged_newline data f = f @ [newline])"
  using assms array_body_lines [of data]
  by (simp add: length_split_lines count_array_body last_array_body ragged_newline_def f_write_def)

theorem row_count_witness:
  "replicate 16 (0 :: byte) \<noteq> []
   \<and> length (split_lines (array_body (replicate 16 0))) = 1
   \<and> ragged_newline (replicate 16 0) ''x'' = ''x''"
  using row_count [of "replicate 16 0" "''x''"] by simp

subsection \<open>Occurrences of a text\<close>

lemma starts_with_iff: "starts_with s p \<longleftrightarrow> (\<exists>b. s = p @ b)"
  by (induction s p rule: starts_with.induct) auto

lemma contains_iff: "contains s p \<longleftrightarrow> (\<exists>a b. s = a @ p @ b)"
proof (induction s)
  case Nil
  then show ?case by simp
next
  case (Cons c cs)
  show ?case
  proof
    assume "contains (c # cs) p"
    then consider "starts_with (c # cs) p" | "contains cs p" by auto
    then show "\<exists>a b. c # cs = a @ p @ b"
    proof cases
      case 1
      then obtain b where "c # cs = p @ b" by (auto simp: starts_with_iff)
      then have "c # cs = [] @ p @ b" by simp
      then show ?thesis by blast
    next
      case 2
      with Cons obtain a b where "cs = a @ p @ b" by blast
      then have "c # cs = (c # a) @ p @ b" by simp
      then show ?thesis by blast
    qed
  next
    assume "\<exists>a b. c # cs = a @ p @ b"
    then obtain a b where ab: "c # cs = a @ p @ b" by blast
    show "contains (c # cs) p"
    proof (cases a)
      case Nil
      with ab have "starts_with (c # cs) p" by (auto simp: starts_with_iff)
      then show ?thesis by simp
    next
      case (Cons x a')
      with ab have "cs = a' @ p @ b" by simp
      with Cons.IH have "contains cs p" by blast
      then show ?thesis by simp
    qed
  qed
qed

subsection \<open>Names and whole documents\<close>

lemma upper_Sprite: "upper ''Sprite'' = ''SPRITE''"
  by code_simp

lemma lower_Sprite: "lower ''Sprite'' = ''sprite''"
  by code_simp

lemma document_scenario_A:
  "document [0] ''x'' =
     ''#ifndef X_H'' @ [newline] @ ''#define X_H'' @ [newline, newline]
     @ ''unsigned char x[] = {'' @ [newline] @ ''    0x00 '' @ [newline] @ ''};'' @ [newline]
     @ ''unsigned int x_len = sizeof(x);'' @ [newline, newline] @ ''#endif'' @ [newline]"
  by code_simp

text \<open>
  C6, as the code has it. For the single byte 0 and the asset name \<^verbatim>\<open>x\<close> the literal is
  followed by one space and then by the newline after the loop: the last byte gets no
  comma, its index is not the last of a row, so line 35 writes the space.
\<close>

theorem scenario_A:
  "contains (document [0] ''x'')
     (''unsigned char x[] = {'' @ [newline] @ ''    0x00 '' @ [newline] @ ''};'' @ [newline]
      @ ''unsigned int x_len = sizeof(x);'')
   \<and> array_body [0] = ''    0x00 '' @ [newline]"
proof
  show "contains (document [0] ''x'')
     (''unsigned char x[] = {'' @ [newline] @ ''    0x00 '' @ [newline] @ ''};'' @ [newline]
      @ ''unsigned int x_len = sizeof(x);'')"
    unfolding document_scenario_A by simp
  show "array_body [0] = ''    0x00 '' @ [newline]"
    by (simp add: array_body_pieces piece_def format_02X_byte hex_digit_def)
qed

text \<open>
  C6 as stated fails: the text with no character between \<^verbatim>\<open>0x00\<close> and its newline does
  not occur in the document.
\<close>

theorem scenario_A_counterexample:
  "\<not> contains (document [0] ''x'')
     (''unsigned char x[] = {'' @ [newline] @ ''    0x00'' @ [newline] @ ''};'' @ [newline]
      @ ''unsigned int x_len = sizeof(x);'')"
  unfolding document_scenario_A by simp

text \<open>
  C7. The three names are functions of the asset name alone: the guard is the name in
  upper case followed by \<^verbatim>\<open>_H\<close>, the array is the name in lower case, the length variable
  is the name in lower case followed by \<^verbatim>\<open>_len\<close>, and the document uses them at these
  places. \<^verbatim>\<open>Sprite\<close> gives \<^verbatim>\<open>SPRITE_H\<close>, \<^verbatim>\<open>sprite\<close> and \<^verbatim>\<open>sprite_len\<close>.
\<close>

theorem name_derivation:
  "document data asset_name =
     ''#ifndef '' @ (upper asset_name @ ''_H'') @ [newline]
     @ ''#define '' @ (upper asset_name @ ''_H'') @ [newline, newline]
     @ ''unsigned char '' @ lower asset_name @ ''[] = {'' @ [newline]
     @ array_body data
     @ ''};'' @ [newline]
     @ ''unsigned int '' @ (lower asset_name @ ''_len'') @ '' = sizeof('' @ lower asset_name @ '');''
     @ [newline, newline] @ ''#endif'' @ [newline]
   \<and> upper ''Sprite'' @ ''_H'' = ''SPRITE_H''
   \<and> lower ''Sprite'' = ''sprite''
   \<and> lower ''Sprite'' @ ''_len'' = ''sprite_len''"
  by (simp add: document_parts opening_text_def closing_text_def upper_Sprite lower_Sprite)

subsection \<open>The calls and the text\<close>

lemma concat_loop_body_calls: "concat (loop_body_calls data i) = piece data i"
  by (auto simp: loop_body_calls_def piece_def)

lemma concat_for_range_calls:
  "concat (for_range_calls data i) = concat (map (piece data) [i..<length data])"
proof (induction data i rule: for_range_calls.induct)
  case (1 data i)
  show ?case
  proof (cases "i < length data")
    case True
    then show ?thesis
      using 1 by (subst for_range_calls.simps) (simp add: concat_loop_body_calls upt_conv_Cons)
  next
    case False
    then show ?thesis by (subst for_range_calls.simps) simp
  qed
qed

lemma foldl_f_write: "foldl f_write f calls = f @ concat calls"
  by (induction calls arbitrary: f) (simp_all add: f_write_def)

lemma concat_write_header_calls:
  "concat (write_header_calls upper_name var_name len_name data)
     = write_header upper_name var_name len_name data []"
  by (simp add: write_header_calls_def write_header_def concat_for_range_calls for_range_pieces
      ragged_newline_def f_write_def Let_def)

text \<open>Writing the calls in order, with no exception, is the text of lines 22 to 39.\<close>

lemma calls_replay:
  "foldl f_write f (write_header_calls upper_name var_name len_name data)
     = write_header upper_name var_name len_name data f"
  by (simp add: foldl_f_write write_header_calls_def write_header_def concat_for_range_calls
      for_range_pieces ragged_newline_def f_write_def Let_def)

lemma calls_document:
  "concat (write_header_calls (upper n) (lower n) (lower n @ ''_len'') data) = document data n"
  by (simp add: concat_write_header_calls document_def Let_def)

subsection \<open>Encoding\<close>

lemma encode_chars_append:
  "encode_chars enc (a @ b) =
     (case encode_chars enc a of
        None \<Rightarrow> None
      | Some x \<Rightarrow> (case encode_chars enc b of None \<Rightarrow> None | Some y \<Rightarrow> Some (x @ y)))"
  by (induction a) (auto split: option.splits)

lemma translate_newlines_append:
  "translate_newlines sep (a @ b) = translate_newlines sep a @ translate_newlines sep b"
  by (simp add: translate_newlines_def)

lemma encode_append:
  "encode w (a @ b) =
     (case encode w a of
        None \<Rightarrow> None
      | Some x \<Rightarrow> (case encode w b of None \<Rightarrow> None | Some y \<Rightarrow> Some (x @ y)))"
  by (simp only: encode_def translate_newlines_append encode_chars_append)

lemma encode_Nil: "encode w [] = Some []"
  by (simp add: encode_def translate_newlines_def)

lemma encode_files_update: "encode (w\<lparr>files := x\<rparr>) s = encode w s"
  by (simp add: encode_def)

lemma encode_cong:
  "encoding w1 = encoding w2 \<Longrightarrow> linesep w1 = linesep w2 \<Longrightarrow> encode w1 s = encode w2 s"
  by (simp add: encode_def)

lemma write_all_files_update: "write_all (w\<lparr>files := x\<rparr>) acc calls = write_all w acc calls"
  by (induction calls arbitrary: acc) (simp_all add: encode_files_update split: option.splits)

lemma write_all_encodable:
  "encode w (concat calls) = Some bs \<Longrightarrow> write_all w acc calls = (None, acc @ bs)"
proof (induction calls arbitrary: acc bs)
  case Nil
  then show ?case by (simp add: encode_Nil)
next
  case (Cons s ss)
  from Cons.prems obtain x y where x: "encode w s = Some x" and y: "encode w (concat ss) = Some y"
    and bs: "bs = x @ y"
    by (auto simp: encode_append split: option.splits)
  from Cons.IH [OF y, of "acc @ x"] x bs show ?case by simp
qed

lemma write_all_raises:
  "encode w (concat calls) = None \<Longrightarrow> fst (write_all w acc calls) = Some UnicodeEncodeError"
proof (induction calls arbitrary: acc)
  case Nil
  then show ?case by (simp add: encode_Nil)
next
  case (Cons s ss)
  show ?case
  proof (cases "encode w s")
    case None
    then show ?thesis by simp
  next
    case (Some x)
    with Cons.prems have "encode w (concat ss) = None"
      by (auto simp: encode_append split: option.splits)
    from Cons.IH [OF this, of "acc @ x"] Some show ?thesis by simp
  qed
qed

lemma write_all_fst:
  "fst (write_all w acc calls) = None \<or> fst (write_all w acc calls) = Some UnicodeEncodeError"
  by (induction calls arbitrary: acc) (auto split: option.splits)

lemma accepted_encodable:
  "encode w (document data n) = Some bs \<Longrightarrow> accepted w data n = bs"
  using write_all_encodable [of w "write_header_calls (upper n) (lower n) (lower n @ ''_len'') data" bs "[]"]
  by (simp add: accepted_def calls_document)


subsection \<open>Running the script\<close>

lemma main_usage:
  "length argv \<noteq> 4 \<Longrightarrow> main argv w = (SysExit 1, w\<lparr>stdout := stdout w @ usage @ [newline]\<rparr>)"
  by (simp add: main_def print_def)

lemma read_bytes_Inr_iff:
  "read_bytes w p = Inr data \<longleftrightarrow> files w p = Some data \<and> readable w p"
  by (auto simp: read_bytes_def split: option.splits)

lemma read_bytes_Inl_iff:
  "read_bytes w p = Inl e \<longleftrightarrow> e = IOError \<and> (files w p = None \<or> \<not> readable w p)"
  by (auto simp: read_bytes_def split: option.splits)

lemma main_read_fails:
  assumes "length argv = 4" and "read_bytes w (argv ! 1) = Inl e"
  shows "main argv w = (Raised IOError, w)"
proof -
  from assms(2) have "e = IOError" by (simp add: read_bytes_Inl_iff)
  with assms(2) have "read_bytes w (argv ! 1) = Inl IOError" by simp
  with assms(1) show ?thesis by (simp add: main_def)
qed

lemma main_open_fails:
  "length argv = 4 \<Longrightarrow> read_bytes w (argv ! 1) = Inr data \<Longrightarrow> \<not> creatable w (argv ! 2)
   \<Longrightarrow> main argv w = (Raised IOError, w)"
  by (simp add: main_def open_w_def Let_def)

text \<open>Once the output is open, the outcome is that of the calls and of the closing.\<close>

lemma main_opened:
  assumes "length argv = 4" and "read_bytes w (argv ! 1) = Inr data" and "creatable w (argv ! 2)"
  shows "main argv w =
     (case close_file w (argv ! 2)
             (write_all w []
                (write_header_calls (upper (argv ! 3)) (lower (argv ! 3))
                   (lower (argv ! 3) @ ''_len'') data)) of
        (None, w') \<Rightarrow> (Finished, w')
      | (Some e, w') \<Rightarrow> (Raised e, w'))"
  using assms
  by (simp add: main_def open_w_def close_file_def write_all_files_update Let_def
      split: option.splits prod.splits)

lemma main_room_fails:
  assumes "length argv = 4" and "read_bytes w (argv ! 1) = Inr data" and "creatable w (argv ! 2)"
    and "room w (argv ! 2) = Some k" and "k < length (accepted w data (argv ! 3))"
  shows "main argv w =
     (Raised IOError, w\<lparr>files := (files w)(argv ! 2 \<mapsto> take k (accepted w data (argv ! 3)))\<rparr>)"
  using assms(4,5) unfolding main_opened [OF assms(1-3)]
  by (simp add: close_file_def accepted_def)

lemma main_room_suffices:
  assumes "length argv = 4" and "read_bytes w (argv ! 1) = Inr data" and "creatable w (argv ! 2)"
    and "room w (argv ! 2) = None
         \<or> (\<exists>k. room w (argv ! 2) = Some k \<and> length (accepted w data (argv ! 3)) \<le> k)"
  shows "main argv w =
     ((case fst (write_all w []
                  (write_header_calls (upper (argv ! 3)) (lower (argv ! 3))
                     (lower (argv ! 3) @ ''_len'') data)) of
         None \<Rightarrow> Finished | Some e \<Rightarrow> Raised e),
      w\<lparr>files := (files w)(argv ! 2 \<mapsto> accepted w data (argv ! 3))\<rparr>)"
  using assms(4) unfolding main_opened [OF assms(1-3)]
  by (auto simp: close_file_def accepted_def split: option.splits prod.splits)

lemma main_succeeds:
  assumes "length argv = 4" and "read_bytes w (argv ! 1) = Inr data" and "creatable w (argv ! 2)"
    and "encode w (document data (argv ! 3)) = Some bs"
    and "room w (argv ! 2) = None \<or> (\<exists>k. room w (argv ! 2) = Some k \<and> length bs \<le> k)"
  shows "main argv w = (Finished, w\<lparr>files := (files w)(argv ! 2 \<mapsto> bs)\<rparr>)"
proof -
  have acc: "accepted w data (argv ! 3) = bs"
    using assms(4) by (rule accepted_encodable)
  have "write_all w []
          (write_header_calls (upper (argv ! 3)) (lower (argv ! 3)) (lower (argv ! 3) @ ''_len'') data)
        = (None, bs)"
    using write_all_encodable [of w _ bs "[]"] assms(4) by (simp add: calls_document)
  then show ?thesis
    using main_room_suffices [OF assms(1-3)] assms(5) by (simp add: acc)
qed




lemma write_all_outcome:
  "fst (write_all w [] (write_header_calls (upper n) (lower n) (lower n @ ''_len'') data))
     = (case encode w (document data n) of None \<Rightarrow> Some UnicodeEncodeError | Some bs \<Rightarrow> None)"
proof (cases "encode w (document data n)")
  case None
  then show ?thesis using write_all_raises [of w _ "[]"] by (simp add: calls_document)
next
  case (Some bs)
  then show ?thesis using write_all_encodable [of w _ bs "[]"] by (simp add: calls_document)
qed

text \<open>The outcome in the four cases of a run with three arguments.\<close>

lemma main_cases:
  assumes "length argv = 4"
  shows "fst (main argv w) =
     (if files w (argv ! 1) = None \<or> \<not> readable w (argv ! 1) \<or> \<not> creatable w (argv ! 2)
      then Raised IOError
      else if \<exists>n. room w (argv ! 2) = Some n
                \<and> n < length (accepted w (the (files w (argv ! 1))) (argv ! 3))
      then Raised IOError
      else (case encode w (document (the (files w (argv ! 1))) (argv ! 3)) of
              None \<Rightarrow> Raised UnicodeEncodeError
            | Some bs \<Rightarrow> Finished))"
proof (cases "read_bytes w (argv ! 1)")
  case (Inl e)
  then have "files w (argv ! 1) = None \<or> \<not> readable w (argv ! 1)"
    by (simp add: read_bytes_Inl_iff)
  moreover have "fst (main argv w) = Raised IOError"
    using main_read_fails [OF assms Inl] by simp
  ultimately show ?thesis by auto
next
  case (Inr data)
  then have f: "files w (argv ! 1) = Some data" and r: "readable w (argv ! 1)"
    by (simp_all add: read_bytes_Inr_iff)
  show ?thesis
  proof (cases "creatable w (argv ! 2)")
    case False
    then show ?thesis using main_open_fails [OF assms Inr] by simp
  next
    case True
    show ?thesis
    proof (cases "\<exists>n. room w (argv ! 2) = Some n \<and> n < length (accepted w data (argv ! 3))")
      case True
      then obtain n where "room w (argv ! 2) = Some n" "n < length (accepted w data (argv ! 3))"
        by blast
      then have "fst (main argv w) = Raised IOError"
        using main_room_fails [OF assms Inr \<open>creatable w (argv ! 2)\<close>] by simp
      with True f r \<open>creatable w (argv ! 2)\<close> show ?thesis by simp
    next
      case False
      then have "room w (argv ! 2) = None
          \<or> (\<exists>k. room w (argv ! 2) = Some k \<and> length (accepted w data (argv ! 3)) \<le> k)"
        by (cases "room w (argv ! 2)") (auto simp: not_less)
      then have "fst (main argv w) =
          (case encode w (document data (argv ! 3)) of
             None \<Rightarrow> Raised UnicodeEncodeError | Some bs \<Rightarrow> Finished)"
        using main_room_suffices [OF assms Inr \<open>creatable w (argv ! 2)\<close>]
        by (simp add: write_all_outcome split: option.splits)
      with False f r \<open>creatable w (argv ! 2)\<close> show ?thesis by auto
    qed
  qed
qed


lemma main_Finished_iff:
  assumes "length argv = 4"
  shows "fst (main argv w) = Finished \<longleftrightarrow>
     readable w (argv ! 1) \<and> creatable w (argv ! 2)
     \<and> (\<exists>d b. files w (argv ! 1) = Some d \<and> encode w (document d (argv ! 3)) = Some b
           \<and> (room w (argv ! 2) = None \<or> (\<exists>n. room w (argv ! 2) = Some n \<and> length b \<le> n)))"
proof -
  have acc: "accepted w d (argv ! 3) = b" if "encode w (document d (argv ! 3)) = Some b" for d b
    using that by (rule accepted_encodable)
  show ?thesis
    unfolding main_cases [OF assms]
    by (cases "files w (argv ! 1)"; cases "room w (argv ! 2)")
       (auto simp: acc not_less split: option.splits)
qed

lemma main_Finished_file:
  assumes "length argv = 4" and "read_bytes w (argv ! 1) = Inr data"
    and "fst (main argv w) = Finished"
  shows "files (snd (main argv w)) (argv ! 2) = encode w (document data (argv ! 3))
    \<and> encode w (document data (argv ! 3)) \<noteq> None"
proof -
  from assms(2) have f: "files w (argv ! 1) = Some data" by (simp add: read_bytes_Inr_iff)
  from assms(3) obtain b where c: "creatable w (argv ! 2)"
    and e: "encode w (document data (argv ! 3)) = Some b"
    and r: "room w (argv ! 2) = None \<or> (\<exists>n. room w (argv ! 2) = Some n \<and> length b \<le> n)"
    unfolding main_Finished_iff [OF assms(1)] using f by auto
  from main_succeeds [OF assms(1,2) c e r] e show ?thesis by simp
qed


text \<open>
  C8, as the code has it. With any number of arguments other than three the script prints
  the usage line with \<^verbatim>\<open>print\<close>, that is to the standard output, and leaves with status
  1; it opens no file, so every file is as it was, and nothing goes to the error stream.
\<close>

theorem usage_error:
  assumes "length argv \<noteq> 4"
  shows "main argv w = (SysExit 1, w\<lparr>stdout := stdout w @ usage @ [newline]\<rparr>)
    \<and> exit_status (fst (main argv w)) = 1
    \<and> files (snd (main argv w)) = files w
    \<and> stderr (snd (main argv w)) = stderr w"
  using assms by (simp add: main_usage)

theorem usage_error_witness:
  "length [''png_to_c.py'', ''in.png''] \<noteq> 4
   \<and> exit_status (fst (main [''png_to_c.py'', ''in.png''] example_world)) = 1
   \<and> files (snd (main [''png_to_c.py'', ''in.png''] example_world)) = files example_world
   \<and> stdout (snd (main [''png_to_c.py'', ''in.png''] example_world)) = usage @ [newline]"
  using usage_error [of "[''png_to_c.py'', ''in.png'']" example_world]
  by (simp add: example_world_def)

text \<open>
  C8 as stated fails: run without arguments, the script leaves the error stream empty; the
  usage line is on the standard output.
\<close>

theorem usage_stream_counterexample:
  "stderr (snd (main [''png_to_c.py''] example_world)) = []
   \<and> stdout (snd (main [''png_to_c.py''] example_world)) = usage @ [newline]"
  by (simp add: main_def print_def example_world_def)




text \<open>
  C10, as the code has it. The text written is a function of the bytes read and of the
  asset name; the bytes of the output file are this text in the encoding and with the line
  separator that \<^verbatim>\<open>open(h_file, 'w')\<close> takes from the environment. Two runs that end
  normally, in any two worlds with the same encoding and the same line separator and with
  any paths, on inputs with the same bytes and with the same asset name, leave the same
  bytes in their output files: the document for these bytes and this name, encoded.
\<close>

theorem deterministic_output:
  assumes "length argv1 = 4" and "length argv2 = 4"
    and "argv1 ! 3 = argv2 ! 3"
    and "read_bytes w1 (argv1 ! 1) = Inr data" and "read_bytes w2 (argv2 ! 1) = Inr data"
    and "fst (main argv1 w1) = Finished" and "fst (main argv2 w2) = Finished"
    and "encoding w1 = encoding w2" and "linesep w1 = linesep w2"
  shows "files (snd (main argv1 w1)) (argv1 ! 2) = files (snd (main argv2 w2)) (argv2 ! 2)
    \<and> files (snd (main argv1 w1)) (argv1 ! 2) = encode w1 (document data (argv1 ! 3))
    \<and> encode w1 (document data (argv1 ! 3)) \<noteq> None"
  using main_Finished_file [OF assms(1) assms(4) assms(6)]
    main_Finished_file [OF assms(2) assms(5) assms(7)]
    assms(3) encode_cong [OF assms(8) assms(9)]
  by simp

theorem deterministic_output_witness:
  "files (snd (main [''png_to_c.py'', ''in.png'', ''out.h'', ''x''] example_world)) ''out.h''
     = files (snd (main [''./png_to_c.py'', ''img/a.png'', ''inc/a.h'', ''x'']
          \<lparr>files = [''img/a.png'' \<mapsto> [0x89, 0x50], ''inc/a.h'' \<mapsto> [1, 2, 3]],
           readable = (\<lambda>p. True), creatable = (\<lambda>p. True), room = (\<lambda>p. None),
           stdout = ''make: entering'', stderr = [], encoding = utf8_codec,
           linesep = [newline]\<rparr>)) ''inc/a.h''
   \<and> files (snd (main [''png_to_c.py'', ''in.png'', ''out.h'', ''x''] example_world)) ''out.h''
     = encode example_world (document [0x89, 0x50] ''x'')"
proof -
  let ?a1 = "[''png_to_c.py'', ''in.png'', ''out.h'', ''x'']"
  let ?a2 = "[''./png_to_c.py'', ''img/a.png'', ''inc/a.h'', ''x'']"
  let ?w2 = "\<lparr>files = [''img/a.png'' \<mapsto> [0x89, 0x50 :: byte], ''inc/a.h'' \<mapsto> [1, 2, 3]],
           readable = (\<lambda>p. True), creatable = (\<lambda>p. True), room = (\<lambda>p. None),
           stdout = ''make: entering'', stderr = [], encoding = utf8_codec,
           linesep = [newline]\<rparr>"
  have l1: "length ?a1 = 4" and l2: "length ?a2 = 4" and n: "?a1 ! 3 = ?a2 ! 3"
    by simp_all
  have r1: "read_bytes example_world (?a1 ! 1) = Inr [0x89, 0x50]"
    by (simp add: read_bytes_def example_world_def)
  have r2: "read_bytes ?w2 (?a2 ! 1) = Inr [0x89, 0x50]"
    by (simp add: read_bytes_def)
  have f1: "fst (main ?a1 example_world) = Finished" by code_simp
  have f2: "fst (main ?a2 ?w2) = Finished" by code_simp
  have e: "encoding example_world = encoding ?w2" and s: "linesep example_world = linesep ?w2"
    by (simp_all add: example_world_def)
  have idx: "?a1 ! 2 = ''out.h''" "?a2 ! 2 = ''inc/a.h''" "?a1 ! 3 = ''x''"
    by simp_all
  show ?thesis
    using deterministic_output [OF l1 l2 n r1 r2 f1 f2 e s] unfolding idx by blast
qed

text \<open>
  C10 as stated fails. The same input bytes and the same asset name, in two worlds that
  differ in the encoding of text files only, UTF-8 and Latin-1: both runs end normally and
  the output files differ, in the bytes of the character of the asset name that is not
  ASCII.
\<close>

theorem environment_counterexample:
  "fst (main [''png_to_c.py'', ''in.png'', ''out.h'', [CHR 0xD7]] example_world) = Finished
   \<and> fst (main [''png_to_c.py'', ''in.png'', ''out.h'', [CHR 0xD7]]
            (example_world\<lparr>encoding := latin1_codec\<rparr>)) = Finished
   \<and> read_bytes example_world ''in.png''
       = read_bytes (example_world\<lparr>encoding := latin1_codec\<rparr>) ''in.png''
   \<and> files (snd (main [''png_to_c.py'', ''in.png'', ''out.h'', [CHR 0xD7]] example_world)) ''out.h''
       \<noteq> files (snd (main [''png_to_c.py'', ''in.png'', ''out.h'', [CHR 0xD7]]
                        (example_world\<lparr>encoding := latin1_codec\<rparr>))) ''out.h''"
  by code_simp

end
